theory Spec2Isabelle
  imports Main
begin

section \<open>Text primitives of the Python runtime\<close>

text \<open>
  The handlers of \<^verbatim>\<open>qgis/nadi/nadi_exe.py\<close> work on decoded text
  (\<^verbatim>\<open>bytes_array.data().decode("utf-8")\<close>). Text is modelled as \<open>string\<close>; a
  \<open>char\<close> stands for the code point of the same number, so the model covers the
  code points below 256. Decoding itself (which raises on a chunk that cuts a
  multi-byte character) is outside the model: a handler receives the decoded chunk.
\<close>

definition NL :: char where
  "NL = CHR 0x0A"

definition isspace :: "char \<Rightarrow> bool" where
  \<comment> \<open>\<^verbatim>\<open>str.isspace\<close> on the code points below 256: the characters \<^verbatim>\<open>str.strip()\<close> removes.\<close>
  "isspace c = (c \<in> set [CHR 0x09, CHR 0x0A, CHR 0x0B, CHR 0x0C, CHR 0x0D,
                         CHR 0x1C, CHR 0x1D, CHR 0x1E, CHR 0x1F, CHR 0x20,
                         CHR 0x85, CHR 0xA0])"

definition py_strip :: "string \<Rightarrow> string" where
  \<comment> \<open>\<^verbatim>\<open>s.strip()\<close>\<close>
  "py_strip s = rev (dropWhile isspace (rev (dropWhile isspace s)))"

definition endswith_nl :: "string \<Rightarrow> bool" where
  \<comment> \<open>\<^verbatim>\<open>s.endswith('\n')\<close>\<close>
  "endswith_nl s = (s \<noteq> [] \<and> last s = NL)"

fun py_split :: "char \<Rightarrow> string \<Rightarrow> string list" where
  \<comment> \<open>\<^verbatim>\<open>s.split(sep)\<close> for a one-character separator: never an empty list.\<close>
  "py_split sep [] = [[]]"
| "py_split sep (c # cs) =
     (if c = sep then [] # py_split sep cs
      else (c # hd (py_split sep cs)) # tl (py_split sep cs))"

definition py_split1 :: "char \<Rightarrow> string \<Rightarrow> (string \<times> string) option" where
  \<comment> \<open>\<^verbatim>\<open>a, b = s.split(sep, maxsplit=1)\<close>: without a separator the list has one element
      and the unpacking raises ValueError, which is \<open>None\<close> here.\<close>
  "py_split1 sep s =
     (if sep \<in> set s
      then Some (takeWhile (\<lambda>c. c \<noteq> sep) s, tl (dropWhile (\<lambda>c. c \<noteq> sep) s))
      else None)"

definition py_rsplit1 :: "char \<Rightarrow> string \<Rightarrow> (string \<times> string) option" where
  \<comment> \<open>\<^verbatim>\<open>a, b = s.rsplit(sep, maxsplit=1)\<close>: split at the last separator; ValueError is \<open>None\<close>.\<close>
  "py_rsplit1 sep s =
     (if sep \<in> set s
      then Some (rev (tl (dropWhile (\<lambda>c. c \<noteq> sep) (rev s))),
                 rev (takeWhile (\<lambda>c. c \<noteq> sep) (rev s)))
      else None)"

fun py_join :: "string \<Rightarrow> string list \<Rightarrow> string" where
  \<comment> \<open>\<^verbatim>\<open>sep.join(xs)\<close>\<close>
  "py_join sep [] = []"
| "py_join sep [x] = x"
| "py_join sep (x # y # ys) = x @ sep @ py_join sep (y # ys)"

subsection \<open>\<^verbatim>\<open>int(s)\<close> on text\<close>

text \<open>
  \<^verbatim>\<open>int(s)\<close> skips white space at both ends, reads an optional sign and then decimal
  digits, where single underscores may stand between digits. The white space it
  skips is narrower than that of \<^verbatim>\<open>strip()\<close>: the separators 0x1C to 0x1F are not
  skipped. Anything else raises ValueError, which is \<open>None\<close> here. The interpreter
  also raises ValueError when the text has more digits than its limit, 4300 by
  default (underscores, the sign and white space are not counted, leading zeros
  are).
\<close>

definition int_space :: "char \<Rightarrow> bool" where
  "int_space c = (c \<in> set [CHR 0x09, CHR 0x0A, CHR 0x0B, CHR 0x0C, CHR 0x0D,
                           CHR 0x20, CHR 0x85, CHR 0xA0])"

definition is_digit :: "char \<Rightarrow> bool" where
  "is_digit c = (48 \<le> (of_char c :: nat) \<and> (of_char c :: nat) \<le> 57)"

definition digit_val :: "char \<Rightarrow> nat" where
  "digit_val c = of_char c - 48"

fun int_digits :: "bool \<Rightarrow> nat \<Rightarrow> string \<Rightarrow> nat option" where
  \<comment> \<open>The flag says whether the character just read was a digit.\<close>
  "int_digits after_digit acc [] = (if after_digit then Some acc else None)"
| "int_digits after_digit acc (c # cs) =
     (if is_digit c then int_digits True (10 * acc + digit_val c) cs
      else if c = CHR ''_'' \<and> after_digit then int_digits False acc cs
      else None)"

definition max_str_digits :: nat where
  \<comment> \<open>\<^verbatim>\<open>sys.int_info.default_max_str_digits\<close>\<close>
  "max_str_digits = 4300"

definition int_value :: "string \<Rightarrow> nat option" where
  \<comment> \<open>The digits after the sign: refused when they are too many.\<close>
  "int_value body =
     (if length (filter is_digit body) > max_str_digits then None
      else int_digits False 0 body)"

definition py_int :: "string \<Rightarrow> int option" where
  "py_int s =
     (let t = rev (dropWhile int_space (rev (dropWhile int_space s))) in
      case t of
        [] \<Rightarrow> None
      | c # cs \<Rightarrow>
          if c = CHR ''-'' then map_option (\<lambda>n. - int n) (int_value cs)
          else if c = CHR ''+'' then map_option int (int_value cs)
          else map_option int (int_value t))"

fun str_nat :: "nat \<Rightarrow> string" where
  \<comment> \<open>\<^verbatim>\<open>str(n)\<close> for a non-negative integer: its decimal digits.\<close>
  "str_nat n =
     (if n < 10 then [char_of (48 + n)]
      else str_nat (n div 10) @ [char_of (48 + n mod 10)])"

declare str_nat.simps [simp del]

section \<open>The feedback object and the state of the handlers\<close>

text \<open>
  The handlers report through the methods of the \<^verbatim>\<open>feedback\<close> object; a call is
  recorded as a value, and a handler returns the calls it made, in order. The
  attributes \<^verbatim>\<open>stdout_handlr._buffer\<close>, \<^verbatim>\<open>stdout_handlr._curr\<close> and
  \<^verbatim>\<open>stderr_handlr._buffer\<close> are the fields of the state.
\<close>

datatype call =
    PushInfo string
  | PushCommandInfo string
  | PushWarning string
  | ReportError string
  | SetProgressText string
  | SetProgress int

record handlers =
  stdout_buffer :: string
  stdout_curr :: string
  stderr_buffer :: string

section \<open>\<^verbatim>\<open>stdout_handlr\<close>\<close>

definition stdout_line :: "string \<Rightarrow> string \<Rightarrow> call list \<times> string" where
  \<comment> \<open>The body of the loop over the lines, for one line; the second
      argument and result are \<^verbatim>\<open>stdout_handlr._curr\<close>.\<close>
  "stdout_line line cur =
     (case py_split1 CHR '':'' (py_strip line) of
        None \<Rightarrow> ([PushInfo line], cur)
      | Some (label, progress) \<Rightarrow>
          (let (announce, cur') =
                 (if label \<noteq> cur then ([SetProgressText label], label) else ([], cur))
           in case py_int progress of
                None \<Rightarrow> (announce @ [PushInfo line], cur')
              | Some p \<Rightarrow> (announce @ [SetProgress p], cur')))"

fun stdout_lines :: "string list \<Rightarrow> string \<Rightarrow> call list \<times> string" where
  \<comment> \<open>\<^verbatim>\<open>for line in ...\<close>\<close>
  "stdout_lines [] cur = ([], cur)"
| "stdout_lines (line # ls) cur =
     (let (cs, cur') = stdout_line line cur;
          (cs', cur'') = stdout_lines ls cur'
      in (cs @ cs', cur''))"

definition stdout_handlr :: "string \<Rightarrow> handlers \<Rightarrow> call list \<times> handlers" where
  "stdout_handlr chunk st =
     (let lines = stdout_buffer st @ chunk in
      if \<not> endswith_nl lines then
        (case py_rsplit1 NL lines of
           None \<Rightarrow> ([], st\<lparr>stdout_buffer := lines\<rparr>)
         | Some (lines', buf) \<Rightarrow>
             (let (cs, cur') = stdout_lines (py_split NL (py_strip lines')) (stdout_curr st)
              in (cs, st\<lparr>stdout_buffer := buf, stdout_curr := cur'\<rparr>)))
      else
        (let (cs, cur') = stdout_lines (py_split NL (py_strip lines)) (stdout_curr st)
         in (cs, st\<lparr>stdout_curr := cur'\<rparr>)))"

section \<open>\<^verbatim>\<open>stderr_handlr\<close>\<close>

definition stderr_handlr :: "string \<Rightarrow> handlers \<Rightarrow> call list \<times> handlers" where
  "stderr_handlr chunk st =
     (let lines = stderr_buffer st @ chunk in
      if \<not> endswith_nl lines then
        (case py_rsplit1 NL lines of
           None \<Rightarrow> ([], st\<lparr>stderr_buffer := lines\<rparr>)
         | Some (lines', buf) \<Rightarrow>
             (map PushWarning (py_split NL (py_strip lines')), st\<lparr>stderr_buffer := buf\<rparr>))
      else (map PushWarning (py_split NL (py_strip lines)), st))"

section \<open>\<^verbatim>\<open>qgis_nadi_proc\<close> and a run of the process\<close>

definition qgis_nadi_proc :: "string \<Rightarrow> string list \<Rightarrow> call list \<times> handlers" where
  \<comment> \<open>The first argument is the result of \<^verbatim>\<open>nadi_bin_path()\<close>. The result is what was
      pushed to the feedback and the state the handlers start from.\<close>
  "qgis_nadi_proc nadi_bin cmd =
     ([PushInfo ''Running Nadi Command:'', PushCommandInfo nadi_bin,
       PushCommandInfo (py_join '' '' cmd), PushInfo ''Output:''],
      \<lparr>stdout_buffer = [], stdout_curr = [], stderr_buffer = []\<rparr>)"

text \<open>
  \<^verbatim>\<open>proc.run(feedback)\<close> hands every chunk read from the process to the handler of its
  stream. The source contains no other call on the handlers or their buffers: when
  a stream ends, nothing more is done with \<^verbatim>\<open>_buffer\<close>.
\<close>

datatype chunk = StdOut string | StdErr string

fun feed :: "chunk \<Rightarrow> handlers \<Rightarrow> call list \<times> handlers" where
  "feed (StdOut c) st = stdout_handlr c st"
| "feed (StdErr c) st = stderr_handlr c st"

fun run_chunks :: "chunk list \<Rightarrow> handlers \<Rightarrow> call list \<times> handlers" where
  "run_chunks [] st = ([], st)"
| "run_chunks (c # cs) st =
     (let (out, st') = feed c st;
          (out', st'') = run_chunks cs st'
      in (out @ out', st''))"

definition report_result :: "bool \<Rightarrow> int \<Rightarrow> call list" where
  \<comment> \<open>The end of \<^verbatim>\<open>processAlgorithm\<close> in \<^verbatim>\<open>nadi_order.py\<close> and in \<^verbatim>\<open>nadi_network.py\<close> (the
      same text in both): the arguments are \<^verbatim>\<open>feedback.isCanceled()\<close> and the
      exit code \<^verbatim>\<open>res\<close>.\<close>
  "report_result canceled res =
     (if canceled then [PushInfo ''Cancelled'']
      else if res \<noteq> 0 then [ReportError ''Error'']
      else [PushInfo ''Completed''])"

definition processAlgorithm :: "string \<Rightarrow> string list \<Rightarrow> chunk list \<Rightarrow> bool \<Rightarrow> int \<Rightarrow> call list" where
  \<comment> \<open>Everything one run pushes to the feedback: the chunks, the cancellation flag and
      the exit code are what the process and the user did.\<close>
  "processAlgorithm nadi_bin cmd chunks canceled res =
     (let (hdr, st) = qgis_nadi_proc nadi_bin cmd;
          (out, st') = run_chunks chunks st
      in hdr @ out @ report_result canceled res)"

definition start :: handlers where
  "start = snd (qgis_nadi_proc [] [])"

section \<open>Lines of a text\<close>

definition demux :: "string \<Rightarrow> string \<Rightarrow> string list \<times> string" where
  \<comment> \<open>What the two handlers have in common, from the buffer and the chunk: the lines
      the loop runs over, and the buffer afterwards. On the path where the text ends
      with a newline the buffer is the old one.\<close>
  "demux buffer chunk =
     (let lines = buffer @ chunk in
      if \<not> endswith_nl lines then
        (case py_rsplit1 NL lines of
           None \<Rightarrow> ([], lines)
         | Some (lines', buf) \<Rightarrow> (py_split NL (py_strip lines'), buf))
      else (py_split NL (py_strip lines), buffer))"

definition complete_lines :: "string \<Rightarrow> string list" where
  \<comment> \<open>The lines of a text that a newline ends.\<close>
  "complete_lines t = butlast (py_split NL t)"

definition pending :: "string \<Rightarrow> string" where
  \<comment> \<open>What follows the last newline of a text (all of it without a newline).\<close>
  "pending t = last (py_split NL t)"

definition split_with_flush :: "string \<Rightarrow> string list" where
  \<comment> \<open>The specification's words: a text split directly on newlines, the part after
      the last newline flushed as a last line when it is not empty.\<close>
  "split_with_flush t = complete_lines t @ (if pending t \<noteq> [] then [pending t] else [])"

definition rejoin :: "string list \<Rightarrow> string \<Rightarrow> string" where
  \<comment> \<open>The specification's words: the lines re-joined with newlines, then the remainder.\<close>
  "rejoin ls rest = concat (map (\<lambda>l. l @ [NL]) ls) @ rest"

definition clean_line :: "string \<Rightarrow> bool" where
  \<comment> \<open>A line that is not empty and has no white space at either end.\<close>
  "clean_line l = (l \<noteq> [] \<and> \<not> isspace (hd l) \<and> \<not> isspace (last l))"

fun aligned :: "string \<Rightarrow> string list \<Rightarrow> bool" where
  \<comment> \<open>The first argument is the unfinished line so far: no chunk ends with a newline
      while a line begun in an earlier chunk is unfinished.\<close>
  "aligned p [] = True"
| "aligned p (c # cs) = ((endswith_nl c \<longrightarrow> p = []) \<and> aligned (pending (p @ c)) cs)"

section \<open>Facts about the text primitives\<close>

lemma isspace_NL: "isspace NL"
  by (simp add: isspace_def NL_def)

lemma py_split_not_Nil: "py_split sep s \<noteq> []"
  by (induction s) auto

lemma py_split_no_sep: "sep \<notin> set s \<Longrightarrow> py_split sep s = [s]"
  by (induction s) auto

lemma py_split_append_sep: "py_split sep (a @ sep # b) = py_split sep a @ py_split sep b"
  by (induction a) (simp_all add: py_split_not_Nil)

lemma last_dropWhile: "dropWhile P xs \<noteq> [] \<Longrightarrow> last (dropWhile P xs) = last xs"
  by (metis last_appendR takeWhile_dropWhile_id)

lemma set_py_strip: "set (py_strip s) \<subseteq> set s"
proof -
  have "set (py_strip s) \<subseteq> set (dropWhile isspace s)"
    unfolding py_strip_def using set_dropWhileD by fastforce
  also have "\<dots> \<subseteq> set s"
    using set_dropWhileD by fastforce
  finally show ?thesis .
qed

lemma py_strip_Nil: "py_strip [] = []"
  by (simp add: py_strip_def)

lemma py_strip_all_space:
  assumes "\<forall>x\<in>set s. isspace x"
  shows "py_strip s = []"
proof -
  from assms have e: "dropWhile isspace s = []" by simp
  show ?thesis unfolding py_strip_def e by simp
qed

lemma py_strip_snoc_space:
  assumes c: "isspace c"
  shows "py_strip (s @ [c]) = py_strip s"
proof (cases "\<forall>x\<in>set s. isspace x")
  case True
  then have "py_strip s = []" by (rule py_strip_all_space)
  moreover from True c have "py_strip (s @ [c]) = []" by (intro py_strip_all_space) simp
  ultimately show ?thesis by simp
next
  case False
  then have "dropWhile isspace (s @ [c]) = dropWhile isspace s @ [c]"
    by (metis dropWhile_append1)
  with c show ?thesis by (simp add: py_strip_def)
qed

lemma py_strip_id:
  assumes "s \<noteq> []" "\<not> isspace (hd s)" "\<not> isspace (last s)"
  shows "py_strip s = s"
proof -
  from assms have "dropWhile isspace s = s"
    by (simp add: dropWhile_eq_self_iff)
  moreover from assms have "dropWhile isspace (rev s) = rev s"
    by (simp add: dropWhile_eq_self_iff hd_rev)
  ultimately show ?thesis by (simp add: py_strip_def)
qed

lemma py_strip_ends:
  assumes "py_strip s \<noteq> []"
  shows "\<not> isspace (hd (py_strip s))" and "\<not> isspace (last (py_strip s))"
proof -
  let ?u = "dropWhile isspace s"
  let ?v = "dropWhile isspace (rev ?u)"
  from assms have v: "?v \<noteq> []" by (simp add: py_strip_def)
  have u: "?u \<noteq> []"
  proof
    assume e: "?u = []"
    have "?v = []" unfolding e by simp
    with v show False by simp
  qed
  have "hd (py_strip s) = last ?v" using v by (simp add: py_strip_def hd_rev)
  also have "\<dots> = last (rev ?u)" using v by (rule last_dropWhile)
  also have "\<dots> = hd ?u" using u by (simp add: last_rev)
  finally show "\<not> isspace (hd (py_strip s))" using u by (simp add: hd_dropWhile)
  have "last (py_strip s) = hd ?v" using v by (simp add: py_strip_def last_rev)
  then show "\<not> isspace (last (py_strip s))" using v by (simp add: hd_dropWhile)
qed

lemma py_strip_idem: "py_strip (py_strip s) = py_strip s"
proof (cases "py_strip s = []")
  case True
  then show ?thesis by (simp add: py_strip_Nil)
next
  case False
  then show ?thesis by (intro py_strip_id py_strip_ends)
qed

section \<open>Facts about the handlers\<close>

lemma start_eq: "start = \<lparr>stdout_buffer = [], stdout_curr = [], stderr_buffer = []\<rparr>"
  by (simp add: start_def qgis_nadi_proc_def)

lemma qgis_nadi_proc_state: "snd (qgis_nadi_proc nadi_bin cmd) = start"
  by (simp add: start_def qgis_nadi_proc_def)

lemma py_rsplit1_None: "py_rsplit1 sep s = None \<longleftrightarrow> sep \<notin> set s"
  by (simp add: py_rsplit1_def)

lemma py_rsplit1_snd: "py_rsplit1 sep s = Some (a, b) \<Longrightarrow> sep \<notin> set b"
  by (auto simp: py_rsplit1_def split: if_splits dest: set_takeWhileD)

lemma endswith_nl_mem: "endswith_nl s \<Longrightarrow> NL \<in> set s"
  by (metis endswith_nl_def last_in_set)

lemma stderr_handlr_no_NL:
  assumes "NL \<notin> set (stderr_buffer st)" "NL \<notin> set c"
  shows "stderr_handlr c st = ([], st\<lparr>stderr_buffer := stderr_buffer st @ c\<rparr>)"
proof -
  from assms have n: "NL \<notin> set (stderr_buffer st @ c)" by simp
  then have "\<not> endswith_nl (stderr_buffer st @ c)" using endswith_nl_mem by blast
  moreover from n have "py_rsplit1 NL (stderr_buffer st @ c) = None" by (simp add: py_rsplit1_None)
  ultimately show ?thesis by (simp add: stderr_handlr_def)
qed

lemma stdout_handlr_no_NL:
  assumes "NL \<notin> set (stdout_buffer st)" "NL \<notin> set c"
  shows "stdout_handlr c st = ([], st\<lparr>stdout_buffer := stdout_buffer st @ c\<rparr>)"
proof -
  from assms have n: "NL \<notin> set (stdout_buffer st @ c)" by simp
  then have "\<not> endswith_nl (stdout_buffer st @ c)" using endswith_nl_mem by blast
  moreover from n have "py_rsplit1 NL (stdout_buffer st @ c) = None" by (simp add: py_rsplit1_None)
  ultimately show ?thesis by (simp add: stdout_handlr_def)
qed

lemma stderr_handlr_buffers:
  assumes "NL \<notin> set (stderr_buffer st)"
  shows "NL \<notin> set (stderr_buffer (snd (stderr_handlr c st)))"
    and "stdout_buffer (snd (stderr_handlr c st)) = stdout_buffer st"
  using assms
  by (auto simp: stderr_handlr_def Let_def py_rsplit1_None split: option.splits dest: py_rsplit1_snd)

lemma stdout_handlr_buffers:
  assumes "NL \<notin> set (stdout_buffer st)"
  shows "NL \<notin> set (stdout_buffer (snd (stdout_handlr c st)))"
    and "stderr_buffer (snd (stdout_handlr c st)) = stderr_buffer st"
  using assms
  by (auto simp: stdout_handlr_def Let_def py_rsplit1_None split: option.splits prod.splits
           dest: py_rsplit1_snd)

lemma feed_buffers:
  assumes "NL \<notin> set (stdout_buffer st) \<and> NL \<notin> set (stderr_buffer st)"
  shows "NL \<notin> set (stdout_buffer (snd (feed c st))) \<and> NL \<notin> set (stderr_buffer (snd (feed c st)))"
  using assms by (cases c) (simp_all add: stdout_handlr_buffers stderr_handlr_buffers)

lemma run_chunks_buffers:
  assumes "NL \<notin> set (stdout_buffer st) \<and> NL \<notin> set (stderr_buffer st)"
  shows "NL \<notin> set (stdout_buffer (snd (run_chunks cs st)))
       \<and> NL \<notin> set (stderr_buffer (snd (run_chunks cs st)))"
  using assms
proof (induction cs arbitrary: st)
  case Nil
  then show ?case by simp
next
  case (Cons c cs)
  from Cons.prems have "NL \<notin> set (stdout_buffer (snd (feed c st)))
      \<and> NL \<notin> set (stderr_buffer (snd (feed c st)))"
    by (rule feed_buffers)
  then have "NL \<notin> set (stdout_buffer (snd (run_chunks cs (snd (feed c st)))))
      \<and> NL \<notin> set (stderr_buffer (snd (run_chunks cs (snd (feed c st)))))"
    by (rule Cons.IH)
  then show ?case by (simp add: split_beta)
qed

lemma run_chunks_start_buffers:
  "NL \<notin> set (stdout_buffer (snd (run_chunks cs start)))
   \<and> NL \<notin> set (stderr_buffer (snd (run_chunks cs start)))"
  by (rule run_chunks_buffers) (simp add: start_eq)

lemma run_chunks_append:
  "run_chunks (xs @ ys) st =
     (fst (run_chunks xs st) @ fst (run_chunks ys (snd (run_chunks xs st))),
      snd (run_chunks ys (snd (run_chunks xs st))))"
  by (induction xs arbitrary: st) (simp_all add: split_beta)

lemma processAlgorithm_eq:
  "processAlgorithm nadi_bin cmd chunks canceled res =
     fst (qgis_nadi_proc nadi_bin cmd) @ fst (run_chunks chunks start) @ report_result canceled res"
  by (simp add: processAlgorithm_def split_beta qgis_nadi_proc_state)

section \<open>Facts about integers and single lines\<close>

lemma is_digit_not_space: "is_digit c \<Longrightarrow> \<not> isspace c"
  by (auto simp: is_digit_def isspace_def)

lemma is_digit_not_int_space: "is_digit c \<Longrightarrow> \<not> int_space c"
  by (auto simp: is_digit_def int_space_def)

lemma is_digit_not_sign: "is_digit c \<Longrightarrow> c \<noteq> CHR ''-'' \<and> c \<noteq> CHR ''+''"
  by (auto simp: is_digit_def)

lemma digit_char: "n < 10 \<Longrightarrow> is_digit (char_of (48 + n)) \<and> digit_val (char_of (48 + n)) = n"
  by (simp add: is_digit_def digit_val_def)

lemma int_digits_all:
  "\<forall>c\<in>set ds. is_digit c \<Longrightarrow> ds \<noteq> [] \<Longrightarrow>
     int_digits b acc ds = Some (foldl (\<lambda>a c. 10 * a + digit_val c) acc ds)"
proof (induction ds arbitrary: b acc)
  case Nil
  then show ?case by simp
next
  case (Cons d ds)
  show ?case
  proof (cases "ds = []")
    case True
    with Cons.prems show ?thesis by simp
  next
    case False
    with Cons.prems
    have "int_digits True (10 * acc + digit_val d) ds =
            Some (foldl (\<lambda>a c. 10 * a + digit_val c) (10 * acc + digit_val d) ds)"
      by (intro Cons.IH) simp_all
    with Cons.prems show ?thesis by simp
  qed
qed

lemma str_nat_digits: "\<forall>c\<in>set (str_nat n). is_digit c"
proof (induction n rule: str_nat.induct)
  case (1 n)
  show ?case
  proof (cases "n < 10")
    case True
    then show ?thesis by (subst str_nat.simps) (simp add: digit_char)
  next
    case False
    with 1 have "\<forall>c\<in>set (str_nat (n div 10)). is_digit c" by simp
    moreover have "is_digit (char_of (48 + n mod 10))" by (simp add: digit_char)
    ultimately show ?thesis using False by (subst str_nat.simps) simp
  qed
qed

lemma str_nat_not_Nil: "str_nat n \<noteq> []"
  by (subst str_nat.simps) simp

lemma str_nat_value: "foldl (\<lambda>a c. 10 * a + digit_val c) 0 (str_nat n) = n"
proof (induction n rule: str_nat.induct)
  case (1 n)
  show ?case
  proof (cases "n < 10")
    case True
    then show ?thesis by (subst str_nat.simps) (simp add: digit_char)
  next
    case False
    with 1 have "foldl (\<lambda>a c. 10 * a + digit_val c) 0 (str_nat (n div 10)) = n div 10" by simp
    then show ?thesis using False by (subst str_nat.simps) (simp add: digit_char)
  qed
qed

lemma str_nat_length: "length (str_nat n) \<le> n + 1"
proof (induction n rule: str_nat.induct)
  case (1 n)
  show ?case
  proof (cases "n < 10")
    case True
    then show ?thesis by (subst str_nat.simps) simp
  next
    case False
    with 1 have "length (str_nat (n div 10)) \<le> n div 10 + 1" by simp
    moreover from False have "n div 10 + 1 \<le> n" by simp
    ultimately show ?thesis using False by (subst str_nat.simps) simp
  qed
qed

lemma py_int_str_nat:
  assumes "n \<le> 100"
  shows "py_int (str_nat n) = Some (int n)"
proof -
  let ?s = "str_nat n"
  have d: "\<forall>c\<in>set ?s. is_digit c" by (rule str_nat_digits)
  have ne: "?s \<noteq> []" by (rule str_nat_not_Nil)
  have h: "is_digit (hd ?s)" and l: "is_digit (last ?s)" using d ne by simp_all
  have "dropWhile int_space ?s = ?s"
    using ne h by (simp add: dropWhile_eq_self_iff is_digit_not_int_space)
  moreover have "dropWhile int_space (rev ?s) = rev ?s"
    using ne l by (simp add: dropWhile_eq_self_iff hd_rev is_digit_not_int_space)
  ultimately have t: "rev (dropWhile int_space (rev (dropWhile int_space ?s))) = ?s" by simp
  obtain c cs where s: "?s = c # cs" using ne by (cases ?s) auto
  with h have c: "c \<noteq> CHR ''-''" "c \<noteq> CHR ''+''" using is_digit_not_sign by auto
  have "length (filter is_digit ?s) \<le> length ?s" by (rule length_filter_le)
  also have "\<dots> \<le> n + 1" by (rule str_nat_length)
  also have "\<dots> \<le> max_str_digits" using assms by (simp add: max_str_digits_def)
  finally have m: "\<not> length (filter is_digit ?s) > max_str_digits" by simp
  have "int_digits False 0 ?s = Some n"
    using int_digits_all [OF d ne, of False 0] by (simp add: str_nat_value)
  with m have "int_value ?s = Some n" by (simp add: int_value_def)
  then show ?thesis
    unfolding py_int_def t using s c by simp
qed

lemma py_split1_append:
  "sep \<notin> set a \<Longrightarrow> py_split1 sep (a @ sep # b) = Some (a, b)"
  by (induction a) (auto simp: py_split1_def)

lemma py_split1_None: "py_split1 sep s = None \<longleftrightarrow> sep \<notin> set s"
  by (simp add: py_split1_def)

lemma stdout_line_progress:
  assumes "CHR '':'' \<notin> set L" "L = [] \<or> \<not> isspace (hd L)" "P \<le> 100"
  shows "stdout_line (L @ CHR '':'' # str_nat P) cur =
           ((if L \<noteq> cur then [SetProgressText L] else []) @ [SetProgress (int P)], L)"
proof -
  let ?line = "L @ CHR '':'' # str_nat P"
  have "is_digit (last (str_nat P))"
    using str_nat_digits [of P] str_nat_not_Nil [of P] last_in_set by blast
  then have "\<not> isspace (last ?line)" using str_nat_not_Nil by (simp add: is_digit_not_space)
  moreover have "\<not> isspace (hd ?line)" using assms(2) by (cases L) (auto simp: isspace_def)
  ultimately have "py_strip ?line = ?line" by (intro py_strip_id) simp_all
  then show ?thesis
    using assms(1,3) by (simp add: stdout_line_def py_split1_append py_int_str_nat)
qed

lemma stdout_line_no_colon:
  "CHR '':'' \<notin> set (py_strip line) \<Longrightarrow> stdout_line line cur = ([PushInfo line], cur)"
  by (simp add: stdout_line_def py_split1_def)

lemma stdout_line_Nil: "stdout_line [] cur = ([PushInfo []], cur)"
  by (simp add: stdout_line_no_colon py_strip_Nil)

lemma stdout_lines_append:
  "stdout_lines (xs @ ys) cur =
     (fst (stdout_lines xs cur) @ fst (stdout_lines ys (snd (stdout_lines xs cur))),
      snd (stdout_lines ys (snd (stdout_lines xs cur))))"
  by (induction xs arbitrary: cur) (simp_all add: split_beta)

lemma stdout_lines_no_colon:
  "\<forall>l\<in>set ls. CHR '':'' \<notin> set l \<Longrightarrow> stdout_lines ls cur = (map PushInfo ls, cur)"
proof (induction ls)
  case Nil
  then show ?case by simp
next
  case (Cons l ls)
  then have "CHR '':'' \<notin> set (py_strip l)" using set_py_strip by fastforce
  then have "stdout_line l cur = ([PushInfo l], cur)" by (rule stdout_line_no_colon)
  with Cons show ?case by simp
qed

lemma stdout_lines_blank:
  "stdout_lines (replicate n [] @ ls) cur =
     (replicate n (PushInfo []) @ fst (stdout_lines ls cur), snd (stdout_lines ls cur))"
  by (induction n) (simp_all add: stdout_line_Nil split_beta)

lemma py_split_replicate:
  "sep \<notin> set b \<Longrightarrow> py_split sep (replicate n sep @ b) = replicate n [] @ [b]"
  by (induction n) (simp_all add: py_split_no_sep)

section \<open>Facts about lines and chunks\<close>

lemma py_split_code [code]:
  "py_split sep [] = [[]]"
  "py_split sep (c # cs) =
     (let rest = py_split sep cs in if c = sep then [] # rest else (c # hd rest) # tl rest)"
  by (simp_all add: Let_def)

lemma stderr_handlr_demux:
  "stderr_handlr chunk st =
     (map PushWarning (fst (demux (stderr_buffer st) chunk)),
      st\<lparr>stderr_buffer := snd (demux (stderr_buffer st) chunk)\<rparr>)"
  by (simp add: stderr_handlr_def demux_def Let_def split: option.splits)

lemma stdout_handlr_demux:
  "stdout_handlr chunk st =
     (fst (stdout_lines (fst (demux (stdout_buffer st) chunk)) (stdout_curr st)),
      st\<lparr>stdout_buffer := snd (demux (stdout_buffer st) chunk),
         stdout_curr := snd (stdout_lines (fst (demux (stdout_buffer st) chunk)) (stdout_curr st))\<rparr>)"
  by (simp add: stdout_handlr_def demux_def Let_def split_beta split: option.splits)

lemma takeWhile_dropWhile_sep:
  "sep \<notin> set a \<Longrightarrow>
     takeWhile (\<lambda>c. c \<noteq> sep) (a @ sep # b) = a \<and> dropWhile (\<lambda>c. c \<noteq> sep) (a @ sep # b) = sep # b"
  by (induction a) auto

lemma py_rsplit1_append:
  assumes "sep \<notin> set r"
  shows "py_rsplit1 sep (h @ sep # r) = Some (h, r)"
proof -
  from assms have "sep \<notin> set (rev r)" by simp
  then have "takeWhile (\<lambda>c. c \<noteq> sep) (rev r @ sep # rev h) = rev r
      \<and> dropWhile (\<lambda>c. c \<noteq> sep) (rev r @ sep # rev h) = sep # rev h"
    by (rule takeWhile_dropWhile_sep)
  then show ?thesis by (simp add: py_rsplit1_def)
qed

lemma endswith_nl_append:
  assumes "NL \<notin> set r"
  shows "endswith_nl (h @ NL # r) \<longleftrightarrow> r = []"
proof (cases "r = []")
  case True
  then show ?thesis by (simp add: endswith_nl_def)
next
  case False
  then have "last r \<in> set r" by simp
  with assms have "last r \<noteq> NL" by metis
  with False show ?thesis by (simp add: endswith_nl_def)
qed

lemma last_sep_decomp: "sep \<in> set s \<Longrightarrow> \<exists>h r. s = h @ sep # r \<and> sep \<notin> set r"
  by (rule split_list_last)

lemma py_join_Cons_Cons: "py_join sep ((c # x) # xs) = c # py_join sep (x # xs)"
  by (cases xs) simp_all

lemma py_join_split: "py_join [sep] (py_split sep s) = s"
proof (induction s)
  case Nil
  show ?case by simp
next
  case (Cons c s)
  obtain x xs where p: "py_split sep s = x # xs"
    using py_split_not_Nil [of sep s] by (cases "py_split sep s") auto
  with Cons show ?case by (simp add: py_join_Cons_Cons)
qed

lemma py_join_Cons: "xs \<noteq> [] \<Longrightarrow> py_join sep (x # xs) = x @ sep @ py_join sep xs"
  by (cases xs) simp_all

lemma rejoin_Cons: "rejoin (x # xs) rest = x @ NL # rejoin xs rest"
  by (simp add: rejoin_def)

lemma rejoin_join: "ls \<noteq> [] \<Longrightarrow> rejoin ls rest = py_join [NL] ls @ NL # rest"
proof (induction ls rule: list_nonempty_induct)
  case (single x)
  show ?case by (simp add: rejoin_def)
next
  case (cons x xs)
  then show ?case by (simp add: rejoin_Cons py_join_Cons)
qed

lemma py_split_segments: "seg \<in> set (py_split sep s) \<Longrightarrow> sep \<notin> set seg"
proof (induction s arbitrary: seg)
  case Nil
  then show ?case by simp
next
  case (Cons c s)
  obtain x xs where p: "py_split sep s = x # xs"
    using py_split_not_Nil [of sep s] by (cases "py_split sep s") auto
  with Cons show ?case by (auto split: if_splits)
qed

lemma py_split_decomp:
  assumes "sep \<notin> set r"
  shows "py_split sep (h @ sep # r) = py_split sep h @ [r]"
  using assms by (simp add: py_split_append_sep py_split_no_sep)

lemma py_split_append:
  "py_split NL (x @ y) = butlast (py_split NL x) @ py_split NL (last (py_split NL x) @ y)"
proof (cases "NL \<in> set x")
  case False
  then have "py_split NL x = [x]" by (rule py_split_no_sep)
  then show ?thesis by simp
next
  case True
  then have "\<exists>h r. x = h @ NL # r \<and> NL \<notin> set r" by (rule last_sep_decomp)
  then obtain h r where x: "x = h @ NL # r" and r: "NL \<notin> set r" by auto
  have a: "py_split NL (h @ NL # r) = py_split NL h @ [r]"
    using r by (rule py_split_decomp)
  have b: "py_split NL (h @ NL # (r @ y)) = py_split NL h @ py_split NL (r @ y)"
    by (rule py_split_append_sep)
  have "x @ y = h @ NL # (r @ y)" by (simp add: x)
  then have c: "py_split NL (x @ y) = py_split NL h @ py_split NL (r @ y)"
    using b by (simp only:)
  have d: "butlast (py_split NL x) = py_split NL h" and e: "last (py_split NL x) = r"
    unfolding x a by simp_all
  show ?thesis unfolding c d e by (rule refl)
qed

lemma complete_lines_append:
  "complete_lines (x @ y) = complete_lines x @ complete_lines (pending x @ y)"
  by (simp add: complete_lines_def pending_def py_split_append [of x y] butlast_append py_split_not_Nil)

lemma pending_append: "pending (x @ y) = pending (pending x @ y)"
  by (simp add: pending_def py_split_append [of x y] py_split_not_Nil)

lemma pending_no_NL: "NL \<notin> set (pending t)"
  unfolding pending_def using py_split_segments [of "last (py_split NL t)" NL t] py_split_not_Nil [of NL t]
  by simp

lemma rejoin_lines: "rejoin (complete_lines t) (pending t) = t"
proof (cases "NL \<in> set t")
  case False
  then show ?thesis by (simp add: complete_lines_def pending_def py_split_no_sep rejoin_def)
next
  case True
  then have "\<exists>h r. t = h @ NL # r \<and> NL \<notin> set r" by (rule last_sep_decomp)
  then obtain h r where t: "t = h @ NL # r" and r: "NL \<notin> set r" by auto
  have "py_split NL t = py_split NL h @ [r]" unfolding t using r by (rule py_split_decomp)
  then have "complete_lines t = py_split NL h" "pending t = r"
    by (simp_all add: complete_lines_def pending_def)
  then show ?thesis
    by (simp add: rejoin_join py_split_not_Nil py_join_split t)
qed

lemma demux_no_NL:
  assumes "NL \<notin> set (b @ c)"
  shows "demux b c = ([], b @ c)"
proof -
  from assms have "\<not> endswith_nl (b @ c)" using endswith_nl_mem by blast
  moreover from assms have "py_rsplit1 NL (b @ c) = None" by (simp add: py_rsplit1_None)
  ultimately show ?thesis by (simp add: demux_def)
qed

lemma demux_split:
  assumes d: "b @ c = h @ NL # r" and r: "NL \<notin> set r"
  shows "demux b c = (py_split NL (py_strip h), if r = [] then b else r)"
proof (cases "r = []")
  case True
  have e: "endswith_nl (h @ [NL])" by (simp add: endswith_nl_def)
  have s: "py_strip (h @ [NL]) = py_strip h" by (rule py_strip_snoc_space [OF isspace_NL])
  show ?thesis
    unfolding demux_def d True using e s by simp
next
  case False
  have e: "\<not> endswith_nl (h @ NL # r)"
    using endswith_nl_append [OF r, of h] False by simp
  have p: "py_rsplit1 NL (h @ NL # r) = Some (h, r)" using r by (rule py_rsplit1_append)
  show ?thesis
    unfolding demux_def d using e p False by simp
qed

lemma py_join_hd:
  assumes "xs \<noteq> []" "hd xs \<noteq> []"
  shows "py_join sep xs \<noteq> [] \<and> hd (py_join sep xs) = hd (hd xs)"
proof (cases xs)
  case Nil
  with assms show ?thesis by simp
next
  case (Cons x ys)
  with assms show ?thesis by (cases ys) simp_all
qed

lemma py_join_last:
  "xs \<noteq> [] \<Longrightarrow> last xs \<noteq> [] \<Longrightarrow>
     py_join sep xs \<noteq> [] \<and> last (py_join sep xs) = last (last xs)"
proof (induction xs rule: list_nonempty_induct)
  case (single x)
  then show ?case by simp
next
  case (cons x xs)
  then have "py_join sep xs \<noteq> [] \<and> last (py_join sep xs) = last (last xs)" by simp
  with cons.hyps show ?case by (simp add: py_join_Cons)
qed

lemma clean_strip:
  assumes "\<forall>l\<in>set (py_split NL h). clean_line l"
  shows "py_strip h = h"
proof -
  let ?ls = "py_split NL h"
  have ne: "?ls \<noteq> []" by (rule py_split_not_Nil)
  have j: "py_join [NL] ?ls = h" by (rule py_join_split)
  from ne assms have f: "clean_line (hd ?ls)" and l: "clean_line (last ?ls)" by simp_all
  from f have "py_join [NL] ?ls \<noteq> [] \<and> hd (py_join [NL] ?ls) = hd (hd ?ls)"
    using ne by (intro py_join_hd) (simp_all add: clean_line_def)
  then have 1: "h \<noteq> []" "hd h = hd (hd ?ls)" unfolding j by simp_all
  from l have "py_join [NL] ?ls \<noteq> [] \<and> last (py_join [NL] ?ls) = last (last ?ls)"
    using ne by (intro py_join_last) (simp_all add: clean_line_def)
  then have 2: "last h = last (last ?ls)" unfolding j by simp
  show ?thesis
    using 1 2 f l by (intro py_strip_id) (simp_all add: clean_line_def)
qed

lemma lines_no_NL:
  assumes "NL \<notin> set t"
  shows "complete_lines t = []" and "pending t = t"
  using py_split_no_sep [OF assms] by (simp_all add: complete_lines_def pending_def)

lemma lines_decomp:
  assumes "NL \<notin> set r"
  shows "complete_lines (h @ NL # r) = py_split NL h" and "pending (h @ NL # r) = r"
  using py_split_decomp [OF assms, of h] by (simp_all add: complete_lines_def pending_def)

lemma demux_clean:
  assumes b: "NL \<notin> set b" and al: "endswith_nl c \<longrightarrow> b = []"
    and cl: "\<forall>l\<in>set (complete_lines (b @ c)). clean_line l"
  shows "demux b c = (complete_lines (b @ c), pending (b @ c))"
proof (cases "NL \<in> set (b @ c)")
  case False
  then show ?thesis using demux_no_NL [OF False] lines_no_NL [OF False] by simp
next
  case True
  then have "\<exists>h r. b @ c = h @ NL # r \<and> NL \<notin> set r" by (rule last_sep_decomp)
  then obtain h r where d: "b @ c = h @ NL # r" and r: "NL \<notin> set r" by auto
  have cp: "complete_lines (b @ c) = py_split NL h" "pending (b @ c) = r"
    unfolding d using r by (rule lines_decomp)+
  have s: "py_strip h = h" using cl unfolding cp by (rule clean_strip)
  have k: "(if r = [] then b else r) = r"
  proof (cases "r = []")
    case False
    then show ?thesis by simp
  next
    case True
    have "c \<noteq> []"
    proof
      assume "c = []"
      with d have "NL \<in> set b" by simp
      with b show False by simp
    qed
    moreover from d True have "last (b @ c) = NL" by simp
    ultimately have "endswith_nl c" by (simp add: endswith_nl_def)
    with al True show ?thesis by simp
  qed
  show ?thesis unfolding demux_split [OF d r] cp s k by (rule refl)
qed

lemma clean_parts:
  assumes "\<forall>l\<in>set (complete_lines (x @ y)). clean_line l"
  shows "\<forall>l\<in>set (complete_lines x). clean_line l"
    and "\<forall>l\<in>set (complete_lines (pending x @ y)). clean_line l"
  using assms unfolding complete_lines_append [of x y] by simp_all

lemma run_stderr_clean:
  assumes "NL \<notin> set (stderr_buffer st)" "aligned (stderr_buffer st) cs"
    and "\<forall>l\<in>set (complete_lines (stderr_buffer st @ concat cs)). clean_line l"
  shows "run_chunks (map StdErr cs) st =
           (map PushWarning (complete_lines (stderr_buffer st @ concat cs)),
            st\<lparr>stderr_buffer := pending (stderr_buffer st @ concat cs)\<rparr>)"
  using assms
proof (induction cs arbitrary: st)
  case Nil
  then show ?case by (simp add: lines_no_NL)
next
  case (Cons c cs)
  let ?b = "stderr_buffer st"
  let ?st = "st\<lparr>stderr_buffer := pending (?b @ c)\<rparr>"
  from Cons.prems(3) have cl: "\<forall>l\<in>set (complete_lines ((?b @ c) @ concat cs)). clean_line l"
    by simp
  have d: "demux ?b c = (complete_lines (?b @ c), pending (?b @ c))"
    using Cons.prems(1,2) clean_parts(1) [OF cl] by (intro demux_clean) simp_all
  have f: "stderr_handlr c st = (map PushWarning (complete_lines (?b @ c)), ?st)"
    by (simp add: stderr_handlr_demux d)
  have "run_chunks (map StdErr cs) ?st =
           (map PushWarning (complete_lines (stderr_buffer ?st @ concat cs)),
            ?st\<lparr>stderr_buffer := pending (stderr_buffer ?st @ concat cs)\<rparr>)"
    using Cons.prems(2) clean_parts(2) [OF cl] by (intro Cons.IH) (simp_all add: pending_no_NL)
  moreover have "complete_lines (?b @ c @ concat cs) =
      complete_lines (?b @ c) @ complete_lines (pending (?b @ c) @ concat cs)"
    using complete_lines_append [of "?b @ c" "concat cs"] by simp
  moreover have "pending (?b @ c @ concat cs) = pending (pending (?b @ c) @ concat cs)"
    using pending_append [of "?b @ c" "concat cs"] by simp
  ultimately show ?case
    by (simp add: f)
qed

lemma run_stdout_clean:
  assumes "NL \<notin> set (stdout_buffer st)" "aligned (stdout_buffer st) cs"
    and "\<forall>l\<in>set (complete_lines (stdout_buffer st @ concat cs)). clean_line l"
  shows "run_chunks (map StdOut cs) st =
           (fst (stdout_lines (complete_lines (stdout_buffer st @ concat cs)) (stdout_curr st)),
            st\<lparr>stdout_buffer := pending (stdout_buffer st @ concat cs),
               stdout_curr :=
                 snd (stdout_lines (complete_lines (stdout_buffer st @ concat cs)) (stdout_curr st))\<rparr>)"
  using assms
proof (induction cs arbitrary: st)
  case Nil
  then show ?case by (simp add: lines_no_NL)
next
  case (Cons c cs)
  let ?b = "stdout_buffer st"
  let ?r = "stdout_lines (complete_lines (?b @ c)) (stdout_curr st)"
  let ?st = "st\<lparr>stdout_buffer := pending (?b @ c), stdout_curr := snd ?r\<rparr>"
  from Cons.prems(3) have cl: "\<forall>l\<in>set (complete_lines ((?b @ c) @ concat cs)). clean_line l"
    by simp
  have d: "demux ?b c = (complete_lines (?b @ c), pending (?b @ c))"
    using Cons.prems(1,2) clean_parts(1) [OF cl] by (intro demux_clean) simp_all
  have f: "stdout_handlr c st = (fst ?r, ?st)"
    by (simp add: stdout_handlr_demux d)
  have "run_chunks (map StdOut cs) ?st =
           (fst (stdout_lines (complete_lines (stdout_buffer ?st @ concat cs)) (stdout_curr ?st)),
            ?st\<lparr>stdout_buffer := pending (stdout_buffer ?st @ concat cs),
               stdout_curr :=
                 snd (stdout_lines (complete_lines (stdout_buffer ?st @ concat cs)) (stdout_curr ?st))\<rparr>)"
    using Cons.prems(2) clean_parts(2) [OF cl] by (intro Cons.IH) (simp_all add: pending_no_NL)
  moreover have "complete_lines (?b @ c @ concat cs) =
      complete_lines (?b @ c) @ complete_lines (pending (?b @ c) @ concat cs)"
    using complete_lines_append [of "?b @ c" "concat cs"] by simp
  moreover have "pending (?b @ c @ concat cs) = pending (pending (?b @ c) @ concat cs)"
    using pending_append [of "?b @ c" "concat cs"] by simp
  ultimately show ?case
    by (simp add: f stdout_lines_append)
qed

lemma py_strip_padded:
  assumes w1: "\<forall>c\<in>set w1. isspace c" and w2: "\<forall>c\<in>set w2. isspace c"
    and b: "body \<noteq> []" "\<not> isspace (hd body)" "\<not> isspace (last body)"
  shows "py_strip (w1 @ body @ w2) = body"
proof -
  have "dropWhile isspace (w1 @ body @ w2) = dropWhile isspace (body @ w2)"
    by (rule dropWhile_append2) (use w1 in simp)
  also have "\<dots> = body @ w2" using b by (simp add: dropWhile_eq_self_iff)
  finally have 1: "dropWhile isspace (w1 @ body @ w2) = body @ w2" .
  have "dropWhile isspace (rev w2 @ rev body) = dropWhile isspace (rev body)"
    by (rule dropWhile_append2) (use w2 in simp)
  also have "\<dots> = rev body" using b by (simp add: dropWhile_eq_self_iff hd_rev)
  finally have 2: "dropWhile isspace (rev w2 @ rev body) = rev body" .
  show ?thesis unfolding py_strip_def 1 using 2 by simp
qed

lemma space_decomp:
  assumes "\<not> (\<forall>c\<in>set h. isspace c)"
  shows "\<exists>w1 body w2. h = w1 @ body @ w2 \<and> (\<forall>c\<in>set w1. isspace c) \<and> (\<forall>c\<in>set w2. isspace c)
           \<and> body \<noteq> [] \<and> \<not> isspace (hd body) \<and> \<not> isspace (last body)"
proof -
  let ?u = "dropWhile isspace h"
  let ?w1 = "takeWhile isspace h"
  let ?v = "dropWhile isspace (rev ?u)"
  let ?w2 = "rev (takeWhile isspace (rev ?u))"
  from assms have u: "?u \<noteq> []" by simp
  then have hu: "\<not> isspace (hd ?u)" by (rule hd_dropWhile)
  have v: "?v \<noteq> []"
  proof
    assume "?v = []"
    then have "\<forall>c\<in>set (rev ?u). isspace c" by simp
    with u hu show False by (cases ?u) auto
  qed
  then have hv: "\<not> isspace (hd ?v)" by (rule hd_dropWhile)
  have "rev ?v @ ?w2 = rev (takeWhile isspace (rev ?u) @ ?v)" by (simp only: rev_append)
  also have "\<dots> = rev (rev ?u)" by (simp only: takeWhile_dropWhile_id)
  finally have e: "?u = rev ?v @ ?w2" by simp
  have "h = ?w1 @ ?u" by simp
  then have h: "h = ?w1 @ rev ?v @ ?w2" using e by simp
  have l: "last (rev ?v) = hd ?v" using v by (simp add: last_rev)
  have "hd (rev ?v) = last ?v" using v by (simp add: hd_rev)
  also have "\<dots> = last (rev ?u)" using v by (rule last_dropWhile)
  also have "\<dots> = hd ?u" using u by (simp add: last_rev)
  finally have f: "hd (rev ?v) = hd ?u" .
  have a: "\<forall>c\<in>set ?w1. isspace c" by (meson set_takeWhileD)
  have b: "\<forall>c\<in>set ?w2. isspace c" using set_takeWhileD by fastforce
  show ?thesis
    using h a b v hu hv l f by (intro exI [of _ ?w1] exI [of _ "rev ?v"] exI [of _ ?w2]) simp
qed

lemma py_join_snoc: "xs \<noteq> [] \<Longrightarrow> py_join sep (xs @ [x]) = py_join sep xs @ sep @ x"
proof (induction xs rule: list_nonempty_induct)
  case (single y)
  show ?case by simp
next
  case (cons y ys)
  then show ?case by (simp add: py_join_Cons)
qed

lemma last_py_split:
  assumes "s \<noteq> []" "last s \<noteq> sep"
  shows "last (py_split sep s) \<noteq> []"
proof
  let ?ps = "py_split sep s"
  assume e: "last ?ps = []"
  have ne: "?ps \<noteq> []" by (rule py_split_not_Nil)
  then have p: "?ps = butlast ?ps @ [[]]" using e by (metis append_butlast_last_id)
  have j: "py_join [sep] ?ps = s" by (rule py_join_split)
  show False
  proof (cases "butlast ?ps = []")
    case True
    with p have "?ps = [[]]" by simp
    with j assms(1) show False by simp
  next
    case False
    have "py_join [sep] (butlast ?ps @ [[]]) = py_join [sep] (butlast ?ps) @ [sep] @ []"
      using False by (rule py_join_snoc)
    with p j have "s = py_join [sep] (butlast ?ps) @ [sep]" by simp
    then have "last s = sep" by (metis last_snoc)
    with assms(2) show False by simp
  qed
qed

lemma hd_py_split:
  assumes "s \<noteq> []" "hd s \<noteq> sep"
  shows "hd (py_split sep s) \<noteq> []"
  using assms by (cases s) simp_all

lemma stdout_lines_empty_line:
  "stdout_lines (xs @ [] # ys) cur =
     (fst (stdout_lines xs cur) @ PushInfo [] # fst (stdout_lines ys (snd (stdout_lines xs cur))),
      snd (stdout_lines ys (snd (stdout_lines xs cur))))"
  by (simp add: stdout_lines_append stdout_line_Nil split_beta)

section \<open>The claims\<close>

text \<open>
  C2. The claim: after every feed the stored state is the suffix of the stream's text
  after its last newline, and it is reset to the empty string when stored state plus
  chunk end with a newline. The handler assigns \<^verbatim>\<open>_buffer\<close> only on the two paths where
  the text does not end with a newline; on the path where it does, the old value
  stays. After the chunks \<^verbatim>\<open>"ab"\<close> and \<^verbatim>\<open>"c\n"\<close> the buffer still holds \<^verbatim>\<open>"ab"\<close>, and the next
  line \<^verbatim>\<open>"d\n"\<close> comes out as \<^verbatim>\<open>"abd"\<close>.
\<close>

theorem buffer_kept_after_newline:
  "fst (run_chunks [StdOut ''ab'', StdOut (''c'' @ [NL]), StdOut (''d'' @ [NL])] start) =
     [PushInfo ''abc'', PushInfo ''abd'']
   \<and> stdout_buffer (snd (run_chunks [StdOut ''ab'', StdOut (''c'' @ [NL])] start)) = ''ab''
   \<and> stderr_buffer (snd (run_chunks [StdErr ''ab'', StdErr (''c'' @ [NL])] start)) = ''ab''"
  by code_simp

text \<open>
  C3. The claim: at the end of a stream a flush emits the pending suffix as a last
  line, so \<^verbatim>\<open>"warn one\nwarn "\<close> and \<^verbatim>\<open>"two"\<close> on the error stream give the warnings
  \<^verbatim>\<open>"warn one"\<close> and \<^verbatim>\<open>"warn two"\<close>. In the source nothing is called at the end of a
  stream: the whole run pushes \<^verbatim>\<open>"warn one"\<close> only.
\<close>

theorem flush_scenario_counterexample:
  "PushWarning ''warn two'' \<notin>
     set (processAlgorithm ''nadi-gis'' [''order'']
            [StdErr (''warn one'' @ [NL] @ ''warn ''), StdErr ''two''] False 0)
   \<and> fst (run_chunks [StdErr (''warn one'' @ [NL] @ ''warn ''), StdErr ''two''] start) =
       [PushWarning ''warn one'']"
  by code_simp

text \<open>
  C3, as the code has it: a last chunk without a newline is added to the buffer of
  its stream and changes nothing of what the run pushes to the feedback, on either
  stream; the buffer is not emitted when the run ends.
\<close>

theorem pending_suffix_not_flushed:
  assumes "NL \<notin> set c"
  shows "processAlgorithm nadi_bin cmd (chunks @ [StdErr c]) canceled res =
           processAlgorithm nadi_bin cmd chunks canceled res
       \<and> stderr_buffer (snd (run_chunks (chunks @ [StdErr c]) start)) =
           stderr_buffer (snd (run_chunks chunks start)) @ c
       \<and> processAlgorithm nadi_bin cmd (chunks @ [StdOut c]) canceled res =
           processAlgorithm nadi_bin cmd chunks canceled res
       \<and> stdout_buffer (snd (run_chunks (chunks @ [StdOut c]) start)) =
           stdout_buffer (snd (run_chunks chunks start)) @ c"
proof -
  let ?st = "snd (run_chunks chunks start)"
  have b: "NL \<notin> set (stdout_buffer ?st) \<and> NL \<notin> set (stderr_buffer ?st)"
    by (rule run_chunks_start_buffers)
  have e: "stderr_handlr c ?st = ([], ?st\<lparr>stderr_buffer := stderr_buffer ?st @ c\<rparr>)"
    using b assms by (intro stderr_handlr_no_NL) simp_all
  have o: "stdout_handlr c ?st = ([], ?st\<lparr>stdout_buffer := stdout_buffer ?st @ c\<rparr>)"
    using b assms by (intro stdout_handlr_no_NL) simp_all
  show ?thesis
    by (simp add: processAlgorithm_eq run_chunks_append e o)
qed

theorem pending_suffix_not_flushed_witness:
  "processAlgorithm ''nadi-gis'' [''order''] ([StdErr (''warn one'' @ [NL] @ ''warn '')] @ [StdErr ''two''])
       False 0 =
     processAlgorithm ''nadi-gis'' [''order''] [StdErr (''warn one'' @ [NL] @ ''warn '')] False 0
   \<and> stderr_buffer (snd (run_chunks ([StdErr (''warn one'' @ [NL] @ ''warn '')] @ [StdErr ''two'']) start)) =
       ''warn two''"
proof -
  have h: "NL \<notin> set ''two''" by (simp add: NL_def)
  have s: "stderr_buffer (snd (run_chunks [StdErr (''warn one'' @ [NL] @ ''warn '')] start)) = ''warn ''"
    by code_simp
  show ?thesis
    using pending_suffix_not_flushed [OF h, of "''nadi-gis''" "[''order'']"
        "[StdErr (''warn one'' @ [NL] @ ''warn '')]" False 0] s
    by simp
qed

text \<open>
  C5. The claim: a line whose rest is not an integer produces an informational line
  only, with no phase change and the current label unchanged. The handler compares
  and stores the label before it calls \<^verbatim>\<open>int\<close> on the rest, so the line \<^verbatim>\<open>"foo:bar"\<close> sets
  the progress text to \<^verbatim>\<open>"foo"\<close>, changes \<^verbatim>\<open>_curr\<close>, and is then pushed as information.
\<close>

theorem malformed_progress_sets_phase:
  "fst (stdout_handlr (''foo:bar'' @ [NL]) start) = [SetProgressText ''foo'', PushInfo ''foo:bar'']
   \<and> stdout_curr (snd (stdout_handlr (''foo:bar'' @ [NL]) start)) = ''foo''
   \<and> stdout_curr start = []"
  by code_simp

text \<open>
  C7. Every run ends with exactly one report: \<^verbatim>\<open>Cancelled\<close> when the feedback says the run
  was cancelled, otherwise \<^verbatim>\<open>Error\<close> when the exit code is not zero, otherwise
  \<^verbatim>\<open>Completed\<close>. It is the last call of the run.
\<close>

theorem terminal_outcome_exclusive:
  "\<exists>t. report_result canceled res = [t]
     \<and> processAlgorithm nadi_bin cmd chunks canceled res =
         fst (qgis_nadi_proc nadi_bin cmd) @ fst (run_chunks chunks start) @ [t]
     \<and> (t = PushInfo ''Cancelled'' \<longleftrightarrow> canceled)
     \<and> (t = ReportError ''Error'' \<longleftrightarrow> \<not> canceled \<and> res \<noteq> 0)
     \<and> (t = PushInfo ''Completed'' \<longleftrightarrow> \<not> canceled \<and> res = 0)"
  by (simp add: processAlgorithm_eq report_result_def)

theorem terminal_outcome_exclusive_witness:
  "report_result False 2 = [ReportError ''Error'']
   \<and> report_result True 2 = [PushInfo ''Cancelled'']
   \<and> report_result False 0 = [PushInfo ''Completed'']"
  using terminal_outcome_exclusive [of False 2] terminal_outcome_exclusive [of True 2]
    terminal_outcome_exclusive [of False 0]
  by auto

text \<open>
  C8. The claim: every complete line on the error stream becomes a warning that carries
  the line's text. The handler strips the text of a feed before it splits it, so a
  line at the ends of that text loses its outer white space and a blank line there
  gets no warning: \<^verbatim>\<open>" a \n b \n"\<close> gives the warnings \<^verbatim>\<open>"a "\<close> and \<^verbatim>\<open>" b"\<close>, and
  \<^verbatim>\<open>"a\n\n"\<close> gives the warning \<^verbatim>\<open>"a"\<close> only.
\<close>

theorem stderr_lines_counterexample:
  "fst (stderr_handlr ('' a '' @ [NL] @ '' b '' @ [NL]) start) = [PushWarning ''a '', PushWarning '' b'']
   \<and> fst (stderr_handlr (''a'' @ [NL, NL]) start) = [PushWarning ''a'']
   \<and> PushWarning [] \<notin> set (fst (stderr_handlr (''a'' @ [NL, NL]) start))"
  by code_simp

text \<open>
  C8, as the code has it, for one feed. Write buffer plus chunk as \<open>h\<close>, a newline,
  and \<open>r\<close> without a newline. The calls of the error handler are exactly one
  \<^verbatim>\<open>pushWarning\<close> for each newline-separated segment of \<open>h\<close> stripped of the white
  space at its two ends, in order, each carrying its segment as it is, whatever
  the content; when every line of \<open>h\<close> is not empty and has no white space at its
  ends, that is one warning for each line of \<open>h\<close>, carrying the line. Without a
  newline in buffer plus chunk there is no call. The label and the buffer of the
  output handler are never touched.
\<close>

theorem stderr_warnings_of_a_feed:
  "(NL \<notin> set (stderr_buffer st @ chunk) \<longrightarrow> fst (stderr_handlr chunk st) = [])
   \<and> (stderr_buffer st @ chunk = h @ NL # r \<and> NL \<notin> set r \<longrightarrow>
        fst (stderr_handlr chunk st) = map PushWarning (py_split NL (py_strip h))
        \<and> ((\<forall>l\<in>set (py_split NL h). clean_line l) \<longrightarrow>
              fst (stderr_handlr chunk st) = map PushWarning (py_split NL h)))
   \<and> stdout_curr (snd (stderr_handlr chunk st)) = stdout_curr st
   \<and> stdout_buffer (snd (stderr_handlr chunk st)) = stdout_buffer st"
proof -
  have a: "fst (stderr_handlr chunk st) = []" if "NL \<notin> set (stderr_buffer st @ chunk)"
    using demux_no_NL [OF that] by (simp add: stderr_handlr_demux)
  have b: "fst (stderr_handlr chunk st) = map PushWarning (py_split NL (py_strip h))"
    if "stderr_buffer st @ chunk = h @ NL # r" "NL \<notin> set r"
    using demux_split [OF that] by (simp add: stderr_handlr_demux)
  have c: "fst (stderr_handlr chunk st) = map PushWarning (py_split NL h)"
    if "stderr_buffer st @ chunk = h @ NL # r" "NL \<notin> set r"
       "\<forall>l\<in>set (py_split NL h). clean_line l"
    using b [OF that(1,2)] clean_strip [OF that(3)] by simp
  have d: "stdout_curr (snd (stderr_handlr chunk st)) = stdout_curr st"
          "stdout_buffer (snd (stderr_handlr chunk st)) = stdout_buffer st"
    by (simp_all add: stderr_handlr_demux)
  from a b c d show ?thesis by blast
qed

theorem stderr_warnings_of_a_feed_witness:
  "fst (stderr_handlr ''ab'' start) = []
   \<and> fst (stderr_handlr (''build:50'' @ [NL] @ ''warn x'' @ NL # ''tail'') start) =
       [PushWarning ''build:50'', PushWarning ''warn x'']
   \<and> fst (stderr_handlr ('' a '' @ [NL] @ '' b '' @ NL # []) start) =
       [PushWarning ''a '', PushWarning '' b'']"
proof -
  have h1: "NL \<notin> set (stderr_buffer start @ ''ab'')" by code_simp
  have h2: "stderr_buffer start @ (''build:50'' @ [NL] @ ''warn x'' @ NL # ''tail'') =
              (''build:50'' @ [NL] @ ''warn x'') @ NL # ''tail'' \<and> NL \<notin> set ''tail''"
    by code_simp
  have h3: "\<forall>l\<in>set (py_split NL (''build:50'' @ [NL] @ ''warn x'')). clean_line l" by code_simp
  have h4: "stderr_buffer start @ ('' a '' @ [NL] @ '' b '' @ NL # []) =
              ('' a '' @ [NL] @ '' b '') @ NL # [] \<and> NL \<notin> set []"
    by code_simp
  have s2: "py_split NL (''build:50'' @ [NL] @ ''warn x'') = [''build:50'', ''warn x'']" by code_simp
  have s4: "py_split NL (py_strip ('' a '' @ [NL] @ '' b '')) = [''a '', '' b'']" by code_simp
  have 1: "fst (stderr_handlr ''ab'' start) = []"
    using h1 by (rule stderr_warnings_of_a_feed [THEN conjunct1, THEN mp])
  have 2: "fst (stderr_handlr (''build:50'' @ [NL] @ ''warn x'' @ NL # ''tail'') start) =
             map PushWarning (py_split NL (''build:50'' @ [NL] @ ''warn x''))"
    using stderr_warnings_of_a_feed [THEN conjunct2, THEN conjunct1, THEN mp, OF h2,
        THEN conjunct2, THEN mp, OF h3] .
  have 3: "fst (stderr_handlr ('' a '' @ [NL] @ '' b '' @ NL # []) start) =
             map PushWarning (py_split NL (py_strip ('' a '' @ [NL] @ '' b '')))"
    using stderr_warnings_of_a_feed [THEN conjunct2, THEN conjunct1, THEN mp, OF h4,
        THEN conjunct1] .
  show ?thesis unfolding 1 2 3 s2 s4 by simp
qed

text \<open>
  C4. The claim: a line is progress exactly when it has the shape label:integer with
  the integer between 0 and 100, and every other line is information. The handler
  applies \<^verbatim>\<open>int\<close> to the text after the first colon and checks no range: the
  line \<^verbatim>\<open>"build:200"\<close> sets the progress to 200 and \<^verbatim>\<open>"build:-5"\<close> sets it to -5.
\<close>

theorem out_of_range_progress_counterexample:
  "fst (stdout_handlr (''build:200'' @ [NL]) start) = [SetProgressText ''build'', SetProgress 200]
   \<and> PushInfo ''build:200'' \<notin> set (fst (stdout_handlr (''build:200'' @ [NL]) start))
   \<and> stdout_line ''build:-5'' ''build'' = ([SetProgress (- 5)], ''build'')"
  by code_simp

text \<open>
  C4, as the code has it. For a label \<open>L\<close> without a colon and without white
  space at its start and every integer \<open>P\<close> from 0 to 100, the line \<open>L:P\<close> sets the
  label to \<open>L\<close> (announced when it differs from the current one) and the progress to
  \<open>P\<close>. A line without a colon is pushed as information and nothing else. A line
  whose text after the first colon is not accepted by \<^verbatim>\<open>int\<close> is pushed as
  information and sets no progress. A line whose text after the first colon is
  accepted by \<^verbatim>\<open>int\<close> is progress with that value, also when the value is not
  between 0 and 100.
\<close>

theorem progress_classification:
  "(CHR '':'' \<notin> set L \<and> (L = [] \<or> \<not> isspace (hd L)) \<and> P \<le> 100 \<longrightarrow>
      stdout_line (L @ CHR '':'' # str_nat P) cur =
        ((if L \<noteq> cur then [SetProgressText L] else []) @ [SetProgress (int P)], L))
   \<and> (CHR '':'' \<notin> set (py_strip line) \<longrightarrow> stdout_line line cur = ([PushInfo line], cur))
   \<and> (py_split1 CHR '':'' (py_strip line) = Some (label, rest) \<and> py_int rest = None \<longrightarrow>
        last (fst (stdout_line line cur)) = PushInfo line
        \<and> (\<forall>q. SetProgress q \<notin> set (fst (stdout_line line cur))))
   \<and> (py_split1 CHR '':'' (py_strip line) = Some (label, rest) \<and> py_int rest = Some p \<longrightarrow>
        stdout_line line cur =
          ((if label \<noteq> cur then [SetProgressText label] else []) @ [SetProgress p], label))"
proof -
  have a: "stdout_line (L @ CHR '':'' # str_nat P) cur =
        ((if L \<noteq> cur then [SetProgressText L] else []) @ [SetProgress (int P)], L)"
    if "CHR '':'' \<notin> set L" "L = [] \<or> \<not> isspace (hd L)" "P \<le> 100"
    using that by (rule stdout_line_progress)
  have b: "stdout_line line cur = ([PushInfo line], cur)" if "CHR '':'' \<notin> set (py_strip line)"
    using that by (rule stdout_line_no_colon)
  have c: "last (fst (stdout_line line cur)) = PushInfo line
        \<and> (\<forall>q. SetProgress q \<notin> set (fst (stdout_line line cur)))"
    if "py_split1 CHR '':'' (py_strip line) = Some (label, rest)" "py_int rest = None"
    using that by (simp add: stdout_line_def)
  have d: "stdout_line line cur =
          ((if label \<noteq> cur then [SetProgressText label] else []) @ [SetProgress p], label)"
    if "py_split1 CHR '':'' (py_strip line) = Some (label, rest)" "py_int rest = Some p"
    using that by (simp add: stdout_line_def)
  from a b c d show ?thesis by blast
qed

theorem progress_classification_witness:
  "stdout_line ''build:25'' [] = ([SetProgressText ''build'', SetProgress 25], ''build'')
   \<and> stdout_line ''done'' ''build'' = ([PushInfo ''done''], ''build'')
   \<and> last (fst (stdout_line ''a:b:5'' ''a'')) = PushInfo ''a:b:5''
   \<and> stdout_line ''build: 1_00 '' ''build'' = ([SetProgress 100], ''build'')"
proof -
  have s: "str_nat 25 = ''25''" by code_simp
  have h1: "CHR '':'' \<notin> set ''build'' \<and> (''build'' = [] \<or> \<not> isspace (hd ''build''))
      \<and> (25::nat) \<le> 100"
    by (simp add: isspace_def)
  have h2: "CHR '':'' \<notin> set (py_strip ''done'')" by code_simp
  have h3: "py_split1 CHR '':'' (py_strip ''a:b:5'') = Some (''a'', ''b:5'') \<and> py_int ''b:5'' = None"
    by code_simp
  have h4: "py_split1 CHR '':'' (py_strip ''build: 1_00 '') = Some (''build'', '' 1_00'')
      \<and> py_int '' 1_00'' = Some 100"
    by code_simp
  from progress_classification [of "''build''" 25 "[]" "''done''" "[]" "[]" 0] h1 s
  have 1: "stdout_line ''build:25'' [] = ([SetProgressText ''build'', SetProgress 25], ''build'')"
    by simp
  from progress_classification [of "[]" 0 "''build''" "''done''" "[]" "[]" 0] h2
  have 2: "stdout_line ''done'' ''build'' = ([PushInfo ''done''], ''build'')" by blast
  from progress_classification [of "[]" 0 "''a''" "''a:b:5''" "''a''" "''b:5''" 0] h3
  have 3: "last (fst (stdout_line ''a:b:5'' ''a'')) = PushInfo ''a:b:5''" by blast
  from progress_classification [of "[]" 0 "''build''" "''build: 1_00 ''" "''build''" "'' 1_00''" 100] h4
  have 4: "stdout_line ''build: 1_00 '' ''build'' = ([SetProgress 100], ''build'')" by simp
  from 1 2 3 4 show ?thesis by blast
qed

text \<open>
  C9. The claim: every empty segment between consecutive newlines is emitted as an
  empty line. The handler strips the accumulated text before it splits it, so the
  empty segments at the two ends are not emitted: \<^verbatim>\<open>"a\n\n\n"\<close> gives the line
  \<^verbatim>\<open>"a"\<close> only, and so does \<^verbatim>\<open>"\n\na\n"\<close>.
\<close>

theorem trailing_blank_lines_counterexample:
  "fst (stdout_handlr (''a'' @ [NL, NL, NL]) start) = [PushInfo ''a'']
   \<and> PushInfo [] \<notin> set (fst (stdout_handlr (''a'' @ [NL, NL, NL]) start))
   \<and> fst (stdout_handlr ([NL, NL] @ ''a'' @ [NL]) start) = [PushInfo ''a'']"
  by code_simp

text \<open>
  C9, as the code has it, for one feed on the output stream. Write buffer plus chunk as
  \<open>h\<close>, a newline, and \<open>r\<close> without a newline. When \<open>h\<close> is empty or all white
  space, the feed emits exactly one empty line, \<^verbatim>\<open>pushInfo("")\<close>. Otherwise \<open>h\<close> is
  white space, then a body that begins and ends with a character that is not white
  space, then white space, and the loop runs over exactly the newline-separated
  segments of the body: the blank lines before and after the body are not emitted,
  the first and the last line emitted are not empty, and every empty segment inside
  the body is classified as \<^verbatim>\<open>pushInfo("")\<close> at its place and leaves the current
  label as it is.
\<close>

theorem blank_lines_of_a_feed:
  assumes "stdout_buffer st @ chunk = h @ NL # r" "NL \<notin> set r"
  shows "((\<forall>c\<in>set h. isspace c) \<longrightarrow> fst (stdout_handlr chunk st) = [PushInfo []])
       \<and> (h = w1 @ body @ w2 \<and> (\<forall>c\<in>set w1. isspace c) \<and> (\<forall>c\<in>set w2. isspace c)
            \<and> body \<noteq> [] \<and> \<not> isspace (hd body) \<and> \<not> isspace (last body) \<longrightarrow>
              fst (stdout_handlr chunk st) = fst (stdout_lines (py_split NL body) (stdout_curr st))
              \<and> hd (py_split NL body) \<noteq> [] \<and> last (py_split NL body) \<noteq> [])
       \<and> (\<not> (\<forall>c\<in>set h. isspace c) \<longrightarrow>
            (\<exists>w1 body w2. h = w1 @ body @ w2 \<and> (\<forall>c\<in>set w1. isspace c) \<and> (\<forall>c\<in>set w2. isspace c)
               \<and> body \<noteq> [] \<and> \<not> isspace (hd body) \<and> \<not> isspace (last body)))
       \<and> stdout_lines (xs @ [] # ys) cur =
           (fst (stdout_lines xs cur) @ PushInfo [] # fst (stdout_lines ys (snd (stdout_lines xs cur))),
            snd (stdout_lines ys (snd (stdout_lines xs cur))))"
proof -
  have g: "fst (stdout_handlr chunk st) =
      fst (stdout_lines (py_split NL (py_strip h)) (stdout_curr st))"
    using demux_split [OF assms] by (simp add: stdout_handlr_demux)
  have a: "fst (stdout_handlr chunk st) = [PushInfo []]" if "\<forall>c\<in>set h. isspace c"
    using py_strip_all_space [OF that] by (simp add: g stdout_line_Nil)
  have b: "fst (stdout_handlr chunk st) = fst (stdout_lines (py_split NL body) (stdout_curr st))
              \<and> hd (py_split NL body) \<noteq> [] \<and> last (py_split NL body) \<noteq> []"
    if "h = w1 @ body @ w2" "\<forall>c\<in>set w1. isspace c" "\<forall>c\<in>set w2. isspace c"
       "body \<noteq> []" "\<not> isspace (hd body)" "\<not> isspace (last body)"
  proof -
    have "py_strip h = body" unfolding that(1) using that(2-6) by (rule py_strip_padded)
    moreover from that(5) have "hd body \<noteq> NL" using isspace_NL by auto
    moreover from that(6) have "last body \<noteq> NL" using isspace_NL by auto
    ultimately show ?thesis
      using that(4) by (simp add: g hd_py_split last_py_split)
  qed
  have c: "\<exists>w1 body w2. h = w1 @ body @ w2 \<and> (\<forall>c\<in>set w1. isspace c) \<and> (\<forall>c\<in>set w2. isspace c)
               \<and> body \<noteq> [] \<and> \<not> isspace (hd body) \<and> \<not> isspace (last body)"
    if "\<not> (\<forall>c\<in>set h. isspace c)"
    using that by (rule space_decomp)
  from a b c stdout_lines_empty_line [of xs ys cur] show ?thesis by blast
qed

theorem blank_lines_of_a_feed_witness:
  "fst (stdout_handlr [NL] start) = [PushInfo []]
   \<and> fst (stdout_handlr ([NL, NL] @ ''a'' @ [NL, NL, NL] @ ''b'' @ [NL, NL]) start) =
       [PushInfo ''a'', PushInfo [], PushInfo [], PushInfo ''b'']
   \<and> (\<exists>w1 body w2. [NL, NL] @ (''a'' @ [NL, NL, NL] @ ''b'') @ [NL] = w1 @ body @ w2
         \<and> (\<forall>c\<in>set w1. isspace c) \<and> (\<forall>c\<in>set w2. isspace c)
         \<and> body \<noteq> [] \<and> \<not> isspace (hd body) \<and> \<not> isspace (last body))"
proof -
  let ?c = "[NL, NL] @ ''a'' @ [NL, NL, NL] @ ''b'' @ [NL, NL]"
  have h1: "stdout_buffer start @ [NL] = [] @ NL # []" "NL \<notin> set []" by code_simp+
  have h2: "stdout_buffer start @ ?c = ([NL, NL] @ (''a'' @ [NL, NL, NL] @ ''b'') @ [NL]) @ NL # []"
    by code_simp
  have h3: "\<forall>c\<in>set []. isspace c" by simp
  have h4: "[NL, NL] @ (''a'' @ [NL, NL, NL] @ ''b'') @ [NL] = [NL, NL] @ (''a'' @ [NL, NL, NL] @ ''b'') @ [NL]
      \<and> (\<forall>c\<in>set [NL, NL]. isspace c) \<and> (\<forall>c\<in>set [NL]. isspace c)
      \<and> ''a'' @ [NL, NL, NL] @ ''b'' \<noteq> [] \<and> \<not> isspace (hd (''a'' @ [NL, NL, NL] @ ''b''))
      \<and> \<not> isspace (last (''a'' @ [NL, NL, NL] @ ''b''))"
    by code_simp
  have e: "fst (stdout_lines (py_split NL (''a'' @ [NL, NL, NL] @ ''b'')) (stdout_curr start)) =
      [PushInfo ''a'', PushInfo [], PushInfo [], PushInfo ''b'']"
    by code_simp
  have 1: "fst (stdout_handlr [NL] start) = [PushInfo []]"
    using blank_lines_of_a_feed [OF h1, THEN conjunct1, THEN mp, OF h3] .
  have 2: "fst (stdout_handlr ?c start) =
      fst (stdout_lines (py_split NL (''a'' @ [NL, NL, NL] @ ''b'')) (stdout_curr start))"
    using blank_lines_of_a_feed [OF h2 h1(2), THEN conjunct2, THEN conjunct1, THEN mp, OF h4,
        THEN conjunct1] .
  have h5: "\<not> (\<forall>c\<in>set ([NL, NL] @ (''a'' @ [NL, NL, NL] @ ''b'') @ [NL]). isspace c)"
    by code_simp
  have 3: "\<exists>w1 body w2. [NL, NL] @ (''a'' @ [NL, NL, NL] @ ''b'') @ [NL] = w1 @ body @ w2
         \<and> (\<forall>c\<in>set w1. isspace c) \<and> (\<forall>c\<in>set w2. isspace c)
         \<and> body \<noteq> [] \<and> \<not> isspace (hd body) \<and> \<not> isspace (last body)"
    using blank_lines_of_a_feed [OF h2 h1(2), THEN conjunct2, THEN conjunct2, THEN conjunct1,
        THEN mp, OF h5] .
  show ?thesis unfolding 1 2 e using 3 by simp
qed

text \<open>
  C10. \<^verbatim>\<open>_curr\<close> starts as the empty string, and as the first line of a run \<^verbatim>\<open>":50"\<close>
  sets the progress only. The claim, for every run: the first line of the shape
  label:integer announces its label exactly when the label is not empty. Two slips of
  the handler break it. A line with a colon and no integer stores its label (C5):
  after \<^verbatim>\<open>"foo:bar"\<close> the line \<^verbatim>\<open>"foo:50"\<close> announces nothing, and after \<^verbatim>\<open>"x:y"\<close> the
  line \<^verbatim>\<open>":50"\<close> announces the empty label. The buffer is not cleared (C2): after
  \<^verbatim>\<open>"ab"\<close> and \<^verbatim>\<open>"c\n"\<close> the line \<^verbatim>\<open>":50"\<close> announces \<^verbatim>\<open>"ab"\<close>.
\<close>

theorem first_progress_line_after_slip:
  "fst (run_chunks [StdOut (''foo:bar'' @ [NL]), StdOut (''foo:50'' @ [NL])] start) =
     [SetProgressText ''foo'', PushInfo ''foo:bar'', SetProgress 50]
   \<and> fst (run_chunks [StdOut (''x:y'' @ [NL]), StdOut ('':50'' @ [NL])] start) =
     [SetProgressText ''x'', PushInfo ''x:y'', SetProgressText [], SetProgress 50]
   \<and> fst (run_chunks [StdOut ''ab'', StdOut (''c'' @ [NL]), StdOut ('':50'' @ [NL])] start) =
     [PushInfo ''abc'', SetProgressText ''ab'', SetProgress 50]
   \<and> fst (run_chunks [StdOut ('':50'' @ [NL])] start) = [SetProgress 50]
   \<and> stdout_curr start = []"
  by code_simp

text \<open>
  C1. The claim: whatever the chunk boundaries, the handler emits the lines of the
  whole text split on newlines. The handler strips and splits the text of each feed
  on its own, so the blank lines at the ends of a feed are lost and the result
  depends on the boundaries: \<^verbatim>\<open>"a\n"\<close> then \<^verbatim>\<open>"\nb\n"\<close> gives the lines
  \<^verbatim>\<open>a\<close>, \<^verbatim>\<open>b\<close>, while the one chunk \<^verbatim>\<open>"a\n\nb\n"\<close> gives \<^verbatim>\<open>a\<close>, the empty line, \<^verbatim>\<open>b\<close>.
\<close>

theorem chunk_boundary_counterexample:
  "concat [''a'' @ [NL], [NL] @ ''b'' @ [NL]] = concat [''a'' @ [NL, NL] @ ''b'' @ [NL]]
   \<and> fst (run_chunks [StdErr (''a'' @ [NL]), StdErr ([NL] @ ''b'' @ [NL])] start) =
       [PushWarning ''a'', PushWarning ''b'']
   \<and> fst (run_chunks [StdErr (''a'' @ [NL, NL] @ ''b'' @ [NL])] start) =
       [PushWarning ''a'', PushWarning [], PushWarning ''b'']
   \<and> split_with_flush (''a'' @ [NL, NL] @ ''b'' @ [NL]) = [''a'', [], ''b'']
   \<and> fst (run_chunks [StdOut (''a'' @ [NL]), StdOut ([NL] @ ''b'' @ [NL])] start) \<noteq>
       fst (run_chunks [StdOut (''a'' @ [NL, NL] @ ''b'' @ [NL])] start)"
  by code_simp

text \<open>
  C1, as the code has it. When every newline-terminated line of the text is not
  empty and has no white space at its ends, and no chunk ends with a newline while
  a line begun in an earlier chunk is unfinished, then the lines handed on are
  the newline-terminated lines of the whole text, whatever the chunk boundaries:
  on the error stream one warning for each, on the output stream the loop over
  them. What follows the last newline stays in the buffer; it is not emitted.
\<close>

theorem chunk_boundary_invariance:
  assumes "aligned [] cs" and "\<forall>l\<in>set (complete_lines (concat cs)). clean_line l"
  shows "run_chunks (map StdErr cs) start =
           (map PushWarning (complete_lines (concat cs)),
            start\<lparr>stderr_buffer := pending (concat cs)\<rparr>)
       \<and> run_chunks (map StdOut cs) start =
           (fst (stdout_lines (complete_lines (concat cs)) []),
            start\<lparr>stdout_buffer := pending (concat cs),
                  stdout_curr := snd (stdout_lines (complete_lines (concat cs)) [])\<rparr>)"
proof -
  have s: "stderr_buffer start = []" "stdout_buffer start = []" "stdout_curr start = []"
    by (simp_all add: start_eq)
  have e: "run_chunks (map StdErr cs) start =
           (map PushWarning (complete_lines (stderr_buffer start @ concat cs)),
            start\<lparr>stderr_buffer := pending (stderr_buffer start @ concat cs)\<rparr>)"
    using assms by (intro run_stderr_clean) (simp_all add: s)
  have o: "run_chunks (map StdOut cs) start =
           (fst (stdout_lines (complete_lines (stdout_buffer start @ concat cs)) (stdout_curr start)),
            start\<lparr>stdout_buffer := pending (stdout_buffer start @ concat cs),
               stdout_curr :=
                 snd (stdout_lines (complete_lines (stdout_buffer start @ concat cs))
                        (stdout_curr start))\<rparr>)"
    using assms by (intro run_stdout_clean) (simp_all add: s)
  from e o show ?thesis by (simp add: s)
qed

theorem chunk_boundary_invariance_witness:
  "run_chunks (map StdErr [''a:1'', ''0'' @ [NL] @ ''a'', '':25'' @ [NL] @ ''done'' @ [NL] @ ''ta'', ''il'']) start =
     (map PushWarning [''a:10'', ''a:25'', ''done''], start\<lparr>stderr_buffer := ''tail''\<rparr>)
   \<and> run_chunks (map StdOut [''a:1'', ''0'' @ [NL] @ ''a'', '':25'' @ [NL] @ ''done'' @ [NL] @ ''ta'', ''il'']) start =
     (fst (stdout_lines [''a:10'', ''a:25'', ''done''] []),
      start\<lparr>stdout_buffer := ''tail'',
            stdout_curr := snd (stdout_lines [''a:10'', ''a:25'', ''done''] [])\<rparr>)
   \<and> stdout_lines [''a:10'', ''a:25'', ''done''] [] =
       ([SetProgressText ''a'', SetProgress 10, SetProgress 25, PushInfo ''done''], ''a'')"
proof -
  let ?cs = "[''a:1'', ''0'' @ [NL] @ ''a'', '':25'' @ [NL] @ ''done'' @ [NL] @ ''ta'', ''il'']"
  have a: "aligned [] ?cs" by code_simp
  have c: "\<forall>l\<in>set (complete_lines (concat ?cs)). clean_line l" by code_simp
  have l: "complete_lines (concat ?cs) = [''a:10'', ''a:25'', ''done'']" by code_simp
  have p: "pending (concat ?cs) = ''tail''" by code_simp
  have r: "stdout_lines [''a:10'', ''a:25'', ''done''] [] =
       ([SetProgressText ''a'', SetProgress 10, SetProgress 25, PushInfo ''done''], ''a'')"
    by code_simp
  note t = chunk_boundary_invariance [OF a c, unfolded l p]
  from t r show ?thesis by (intro conjI) (rule conjunct1, assumption, rule conjunct2, assumption, assumption)
qed

text \<open>
  C6. The claim: the emitted lines, re-joined with newlines, and the remainder give
  back the input exactly. The handlers strip the text before they split it: the
  chunk \<^verbatim>\<open>" a\n"\<close> gives the line \<^verbatim>\<open>"a"\<close>, and the leading blank is lost.
\<close>

theorem stripped_text_counterexample:
  "fst (stderr_handlr ('' a'' @ [NL]) start) = map PushWarning [''a'']
   \<and> rejoin [''a''] (stderr_buffer (snd (stderr_handlr ('' a'' @ [NL]) start))) \<noteq> '' a'' @ [NL]
   \<and> fst (stdout_handlr ('' a'' @ [NL]) start) = map PushInfo [''a'']
   \<and> rejoin [''a''] (stdout_buffer (snd (stdout_handlr ('' a'' @ [NL]) start))) \<noteq> '' a'' @ [NL]"
  by code_simp

text \<open>
  C6, as the code has it, for one feed on either stream. Without a newline in buffer
  plus chunk, nothing is emitted and all of it is stored. Otherwise write buffer plus
  chunk as \<open>h\<close>, a newline, and \<open>r\<close> without a newline: the lines handed on, re-joined
  with newlines and followed by \<open>r\<close>, are \<open>h\<close> stripped of the white space at its two
  ends, the newline and \<open>r\<close>; and \<open>r\<close> is what is stored, when \<open>r\<close> is not empty or
  the buffer was empty.
\<close>

theorem feed_reconstruction:
  "(NL \<notin> set (stderr_buffer st @ chunk) \<longrightarrow>
      stderr_handlr chunk st = ([], st\<lparr>stderr_buffer := stderr_buffer st @ chunk\<rparr>))
   \<and> (stderr_buffer st @ chunk = h @ NL # r \<and> NL \<notin> set r \<longrightarrow>
        (\<exists>ls. fst (stderr_handlr chunk st) = map PushWarning ls
           \<and> rejoin ls r = py_strip h @ NL # r
           \<and> (r \<noteq> [] \<or> stderr_buffer st = [] \<longrightarrow>
                stderr_buffer (snd (stderr_handlr chunk st)) = r)))
   \<and> (NL \<notin> set (stdout_buffer st @ chunk) \<longrightarrow>
      stdout_handlr chunk st = ([], st\<lparr>stdout_buffer := stdout_buffer st @ chunk\<rparr>))
   \<and> (stdout_buffer st @ chunk = h @ NL # r \<and> NL \<notin> set r \<longrightarrow>
        (\<exists>ls. fst (stdout_handlr chunk st) = fst (stdout_lines ls (stdout_curr st))
           \<and> rejoin ls r = py_strip h @ NL # r
           \<and> (r \<noteq> [] \<or> stdout_buffer st = [] \<longrightarrow>
                stdout_buffer (snd (stdout_handlr chunk st)) = r)))"
proof -
  have j: "rejoin (py_split NL (py_strip h)) r = py_strip h @ NL # r"
    by (simp add: rejoin_join py_split_not_Nil py_join_split)
  have a: "stderr_handlr chunk st = ([], st\<lparr>stderr_buffer := stderr_buffer st @ chunk\<rparr>)"
    if "NL \<notin> set (stderr_buffer st @ chunk)"
    using demux_no_NL [OF that] by (simp add: stderr_handlr_demux)
  have b: "\<exists>ls. fst (stderr_handlr chunk st) = map PushWarning ls
           \<and> rejoin ls r = py_strip h @ NL # r
           \<and> (r \<noteq> [] \<or> stderr_buffer st = [] \<longrightarrow>
                stderr_buffer (snd (stderr_handlr chunk st)) = r)"
    if "stderr_buffer st @ chunk = h @ NL # r" "NL \<notin> set r"
  proof (intro exI conjI)
    show "fst (stderr_handlr chunk st) = map PushWarning (py_split NL (py_strip h))"
      using demux_split [OF that] by (simp add: stderr_handlr_demux)
    show "rejoin (py_split NL (py_strip h)) r = py_strip h @ NL # r" by (rule j)
    show "r \<noteq> [] \<or> stderr_buffer st = [] \<longrightarrow> stderr_buffer (snd (stderr_handlr chunk st)) = r"
      using demux_split [OF that] by (auto simp: stderr_handlr_demux)
  qed
  have c: "stdout_handlr chunk st = ([], st\<lparr>stdout_buffer := stdout_buffer st @ chunk\<rparr>)"
    if "NL \<notin> set (stdout_buffer st @ chunk)"
    using demux_no_NL [OF that] by (simp add: stdout_handlr_demux)
  have d: "\<exists>ls. fst (stdout_handlr chunk st) = fst (stdout_lines ls (stdout_curr st))
           \<and> rejoin ls r = py_strip h @ NL # r
           \<and> (r \<noteq> [] \<or> stdout_buffer st = [] \<longrightarrow>
                stdout_buffer (snd (stdout_handlr chunk st)) = r)"
    if "stdout_buffer st @ chunk = h @ NL # r" "NL \<notin> set r"
  proof (intro exI conjI)
    show "fst (stdout_handlr chunk st) =
        fst (stdout_lines (py_split NL (py_strip h)) (stdout_curr st))"
      using demux_split [OF that] by (simp add: stdout_handlr_demux)
    show "rejoin (py_split NL (py_strip h)) r = py_strip h @ NL # r" by (rule j)
    show "r \<noteq> [] \<or> stdout_buffer st = [] \<longrightarrow> stdout_buffer (snd (stdout_handlr chunk st)) = r"
      using demux_split [OF that] by (auto simp: stdout_handlr_demux)
  qed
  from a b c d show ?thesis by blast
qed

theorem feed_reconstruction_witness:
  "stderr_handlr ''ab'' start = ([], start\<lparr>stderr_buffer := stderr_buffer start @ ''ab''\<rparr>)
   \<and> (\<exists>ls. fst (stderr_handlr ('' a'' @ NL # ''b'') start) = map PushWarning ls
         \<and> rejoin ls ''b'' = ''a'' @ NL # ''b''
         \<and> stderr_buffer (snd (stderr_handlr ('' a'' @ NL # ''b'') start)) = ''b'')
   \<and> (\<exists>ls. fst (stdout_handlr ('' a'' @ NL # ''b'') start) = fst (stdout_lines ls (stdout_curr start))
         \<and> rejoin ls ''b'' = ''a'' @ NL # ''b''
         \<and> stdout_buffer (snd (stdout_handlr ('' a'' @ NL # ''b'') start)) = ''b'')"
proof -
  have h1: "NL \<notin> set (stderr_buffer start @ ''ab'')" by code_simp
  have h2: "stderr_buffer start @ ('' a'' @ NL # ''b'') = '' a'' @ NL # ''b'' \<and> NL \<notin> set ''b''"
    by code_simp
  have h3: "stdout_buffer start @ ('' a'' @ NL # ''b'') = '' a'' @ NL # ''b'' \<and> NL \<notin> set ''b''"
    by code_simp
  have s: "py_strip '' a'' = ''a''" by code_simp
  have 1: "stderr_handlr ''ab'' start = ([], start\<lparr>stderr_buffer := stderr_buffer start @ ''ab''\<rparr>)"
    using h1 by (rule feed_reconstruction [THEN conjunct1, THEN mp])
  have 2: "\<exists>ls. fst (stderr_handlr ('' a'' @ NL # ''b'') start) = map PushWarning ls
           \<and> rejoin ls ''b'' = py_strip '' a'' @ NL # ''b''
           \<and> (''b'' \<noteq> [] \<or> stderr_buffer start = [] \<longrightarrow>
                stderr_buffer (snd (stderr_handlr ('' a'' @ NL # ''b'') start)) = ''b'')"
    using h2 by (rule feed_reconstruction [THEN conjunct2, THEN conjunct1, THEN mp])
  have 3: "\<exists>ls. fst (stdout_handlr ('' a'' @ NL # ''b'') start) = fst (stdout_lines ls (stdout_curr start))
           \<and> rejoin ls ''b'' = py_strip '' a'' @ NL # ''b''
           \<and> (''b'' \<noteq> [] \<or> stdout_buffer start = [] \<longrightarrow>
                stdout_buffer (snd (stdout_handlr ('' a'' @ NL # ''b'') start)) = ''b'')"
    using h3 by (rule feed_reconstruction [THEN conjunct2, THEN conjunct2, THEN conjunct2, THEN mp])
  from 1 2 3 show ?thesis unfolding s by simp
qed

end
